theory Spec2Isabelle
  imports Main "HOL-Library.Signed_Division"
begin

section \<open>Data model\<close>

text \<open>
  Go strings and byte slices are sequences of bytes; both are modelled as \<open>string\<close>
  (a list of 8-bit characters).  A \<open>LogItem\<close> is the struct of the source.
\<close>

record LogItem =
  Pod :: string
  Container :: string
  Timestamp :: string
  SingleContainer :: bool
  Bytes :: string

text \<open>
  A \<open>LogModifier\<close> is an interface with the single method \<open>Modify\<close>.  An interface
  value may be nil: \<open>None\<close> is the nil interface, \<open>Some f\<close> an implementation whose
  \<open>Modify\<close> method is \<open>f\<close>.
\<close>

type_synonym LogModifier = "(string \<Rightarrow> string) option"

text \<open>
  The package-level variable \<open>logModifiers\<close> is a Go map from names to interface values.
  It is passed explicitly.  Reading a Go map at a missing key gives the zero value, here
  the nil interface.
\<close>

type_synonym registry = "string \<rightharpoonup> LogModifier"

definition RegisterLogModifier :: "string \<Rightarrow> LogModifier \<Rightarrow> registry \<Rightarrow> registry" where
  "RegisterLogModifier name modifier logModifiers = logModifiers(name \<mapsto> modifier)"

definition lookup_modifier :: "registry \<Rightarrow> string \<Rightarrow> LogModifier" where
  "lookup_modifier logModifiers name =
     (case logModifiers name of None \<Rightarrow> None | Some m \<Rightarrow> m)"

section \<open>The zap-pretty modifier\<close>

text \<open>
  \<open>zappretty.PrettyLine\<close> belongs to an external package and is a parameter: it returns
  the Go pair of a string and an error, the error being \<open>None\<close> for nil.
\<close>

definition ZapPretty_Modify :: "(string \<Rightarrow> bool \<Rightarrow> string \<times> 'e option) \<Rightarrow> string \<Rightarrow> string" where
  "ZapPretty_Modify PrettyLine line =
     (case PrettyLine line True of
        (pretty, Some err) \<Rightarrow> line
      | (pretty, None) \<Rightarrow> pretty)"

text \<open>The package's \<open>init\<close> registers the modifier under the name zap-pretty.\<close>

definition init :: "(string \<Rightarrow> bool \<Rightarrow> string \<times> 'e option) \<Rightarrow> registry \<Rightarrow> registry" where
  "init PrettyLine logModifiers =
     RegisterLogModifier ''zap-pretty'' (Some (ZapPretty_Modify PrettyLine)) logModifiers"

section \<open>Escaping bracket tags\<close>

text \<open>
  \<open>escPattern\<close> is the regular expression
  \<^verbatim>\<open>(\[[a-zA-Z0-9_,;: \-\."#]+\[*)\]\<close>.
  All of its atoms are ASCII, so matching on bytes and matching on runes agree.
  \<open>tag_char\<close> is its character class.
\<close>

definition tag_char :: "char \<Rightarrow> bool" where
  "tag_char c =
     (let n = (of_char c :: nat) in
        (97 \<le> n \<and> n \<le> 122) \<or> (65 \<le> n \<and> n \<le> 90) \<or> (48 \<le> n \<and> n \<le> 57)
        \<or> c = CHR ''_'' \<or> c = CHR '','' \<or> c = CHR '';'' \<or> c = CHR '':'' \<or> c = CHR '' ''
        \<or> c = CHR ''-'' \<or> c = CHR ''.'' \<or> c = CHR 0x22 \<or> c = CHR ''#'')"

abbreviation lbr :: char where "lbr \<equiv> CHR ''[''"
abbreviation rbr :: char where "rbr \<equiv> CHR '']''"

text \<open>
  The language of the pattern, read off the expression: an opening bracket, one or more
  class characters, any number of opening brackets (together the first group), and a
  closing bracket.  \<open>esc_token g w\<close> says that \<open>w\<close> is in the language with first
  group \<open>g\<close>.
\<close>

definition esc_token :: "string \<Rightarrow> string \<Rightarrow> bool" where
  "esc_token g w \<longleftrightarrow>
     (\<exists>body opens. body \<noteq> [] \<and> list_all tag_char body \<and> list_all (\<lambda>c. c = lbr) opens
        \<and> g = lbr # body @ opens \<and> w = g @ [rbr])"

text \<open>
  A match anchored at the head of \<open>s\<close>, as the backtracking engine finds it: both
  repetitions are greedy.  The result is the first group and the text after the match.
\<close>

definition escPattern_match :: "string \<Rightarrow> (string \<times> string) option" where
  "escPattern_match s =
     (case s of
        [] \<Rightarrow> None
      | c # t \<Rightarrow>
          if c \<noteq> lbr then None
          else
            let body = takeWhile tag_char t;
                r1 = dropWhile tag_char t;
                opens = takeWhile (\<lambda>x. x = lbr) r1;
                r2 = dropWhile (\<lambda>x. x = lbr) r1
            in if body = [] then None
               else (case r2 of
                       [] \<Rightarrow> None
                     | d # r3 \<Rightarrow> if d = rbr then Some (lbr # body @ opens, r3) else None))"

lemma escPattern_match_shorter:
  "escPattern_match s = Some (g, r) \<Longrightarrow> length r < length s"
proof -
  assume m: "escPattern_match s = Some (g, r)"
  then obtain c t where s: "s = c # t"
    by (cases s) (auto simp: escPattern_match_def)
  let ?r1 = "dropWhile tag_char t"
  let ?r2 = "dropWhile (\<lambda>x. x = lbr) ?r1"
  from m s have "?r2 = rbr # r"
    by (auto simp: escPattern_match_def Let_def split: if_splits list.splits)
  then have "length r < length ?r2" by simp
  also have "\<dots> \<le> length ?r1" by (rule length_dropWhile_le)
  also have "\<dots> \<le> length t" by (rule length_dropWhile_le)
  finally show ?thesis using s by simp
qed

text \<open>The replacement template \<open>matcher\<close> is \<^verbatim>\<open>$1[]\<close>: the first group, then an empty bracket pair.\<close>

definition matcher :: "string \<Rightarrow> string" where
  "matcher g = g @ ''[]''"

text \<open>
  \<open>escPattern.ReplaceAll(b, matcher)\<close>: scan from the left; at the leftmost match emit
  the expanded template and go on after the match, otherwise copy one byte.
\<close>

function ReplaceAll :: "string \<Rightarrow> string" where
  "ReplaceAll [] = []"
| "ReplaceAll (c # cs) =
     (case escPattern_match (c # cs) of
        Some (g, rest) \<Rightarrow> matcher g @ ReplaceAll rest
      | None \<Rightarrow> c # ReplaceAll cs)"
  by pat_completeness auto
termination
  by (relation "measure length") (auto dest: escPattern_match_shorter)

text \<open>
  What the specification calls a message "containing a bracket-delimited token matching
  the pattern": some part of the message is in the language of the pattern.
\<close>

definition has_esc_token :: "string \<Rightarrow> bool" where
  "has_esc_token msg \<longleftrightarrow> (\<exists>pre g w post. esc_token g w \<and> msg = pre @ w @ post)"

section \<open>Rendering a log item\<close>

text \<open>The padding loop of \<open>Render\<close>: append spaces while the counter is below 30.\<close>

function pad_loop :: "string \<Rightarrow> nat \<Rightarrow> string" where
  "pad_loop t i = (if i < 30 then pad_loop (t @ '' '') (Suc i) else t)"
  by pat_completeness auto
termination
  by (relation "measure (\<lambda>(t, i). 30 - i)") auto

declare pad_loop.simps [simp del]

text \<open>
  \<open>color.ANSIColorize\<close> is declared in another package and is a parameter.
\<close>

definition Render ::
  "(string \<Rightarrow> int \<Rightarrow> string) \<Rightarrow> registry \<Rightarrow> LogItem \<Rightarrow> int \<Rightarrow> bool \<Rightarrow> string \<Rightarrow> string" where
  "Render ANSIColorize logModifiers l paint showTime modifier =
     (let bb0 = [];
          bb1 = (if showTime
                 then bb0 @ ANSIColorize (pad_loop (Timestamp l) (length (Timestamp l))) 106 @ '' ''
                 else bb0);
          bb2 = (if Pod l \<noteq> [] then bb1 @ ANSIColorize (Pod l) paint @ '':'' else bb1);
          bb3 = (if \<not> SingleContainer l \<and> Container l \<noteq> []
                 then bb2 @ ANSIColorize (Container l) paint @ '' ''
                 else bb2);
          line = bb3 @ ReplaceAll (Bytes l)
      in case lookup_modifier logModifiers modifier of
           Some Modify \<Rightarrow> Modify line
         | None \<Rightarrow> line)"

text \<open>The line \<open>Render\<close> assembles before the modifier is looked up.\<close>

definition assembled ::
  "(string \<Rightarrow> int \<Rightarrow> string) \<Rightarrow> LogItem \<Rightarrow> int \<Rightarrow> bool \<Rightarrow> string" where
  "assembled ANSIColorize l paint showTime = Render ANSIColorize Map.empty l paint showTime []"

section \<open>Parsing a raw line\<close>

text \<open>
  \<open>bytes.Split(s, sep)\<close> for the one-byte separator the source passes: the pieces
  between the separators, in order; an input without separator gives a single piece,
  the empty input a single empty piece.
\<close>

fun bytes_Split :: "string \<Rightarrow> char \<Rightarrow> string list" where
  "bytes_Split [] sep = [[]]"
| "bytes_Split (c # cs) sep =
     (if c = sep then [] # bytes_Split cs sep
      else (case bytes_Split cs sep of
              [] \<Rightarrow> [[c]]
            | w # ws \<Rightarrow> (c # w) # ws))"

text \<open>\<open>bytes.Join(s, sep)\<close>: the pieces with the separator between neighbours.\<close>

fun bytes_Join :: "string list \<Rightarrow> string \<Rightarrow> string" where
  "bytes_Join [] sep = []"
| "bytes_Join [w] sep = w"
| "bytes_Join (w # ws) sep = w @ sep @ bytes_Join ws sep"

text \<open>
  \<open>NewLogItem\<close>.  The slice \<open>b[:len(b)-1]\<close> panics on an empty \<open>b\<close> and \<open>cols[0]\<close>
  on an empty \<open>cols\<close>; a panic is the result \<open>None\<close>.  The fields the source leaves
  unset hold their zero values.
\<close>

definition NewLogItem :: "string \<Rightarrow> LogItem option" where
  "NewLogItem b =
     (let space = CHR '' '' in
      if b = [] then None
      else
        (case bytes_Split (take (length b - 1) b) space of
           [] \<Rightarrow> None
         | c0 # cols1 \<Rightarrow>
             Some \<lparr>Pod = [], Container = [], Timestamp = c0, SingleContainer = False,
                   Bytes = bytes_Join cols1 [space]\<rparr>))"

section \<open>Colour assignment\<close>

text \<open>
  Go's \<open>int\<close> is taken at 64 bits: \<open>wrap64\<close> is the two's-complement wrap-around of an
  addition, and Go's \<open>%\<close> truncates towards zero (\<open>smod\<close>).  A \<open>range\<close> over a string
  yields its runes, so the identity is given as the list of its code points.
\<close>

definition wrap64 :: "int \<Rightarrow> int" where
  "wrap64 x = (x + 2 ^ 63) mod 2 ^ 64 - 2 ^ 63"

fun sum_loop :: "int \<Rightarrow> int list \<Rightarrow> int" where
  "sum_loop acc [] = acc"
| "sum_loop acc (r # rs) = sum_loop (wrap64 (acc + r)) rs"

text \<open>
  \<open>rand.Intn\<close> draws from the process-wide generator; the generator's state \<open>g\<close> is
  passed in and returned.
\<close>

definition colorFor :: "(int \<Rightarrow> 'g \<Rightarrow> int \<times> 'g) \<Rightarrow> int list \<Rightarrow> 'g \<Rightarrow> int \<times> 'g" where
  "colorFor Intn n g =
     (let total = sum_loop 0 n;
          c = total smod 256
      in if c = 0 then (case Intn 10 g of (r, g') \<Rightarrow> (wrap64 (207 + r), g'))
         else (c, g))"

section \<open>The record collection and its filters\<close>

text \<open>
  The collaborators of the collection operations, each declared outside the two source
  files: the colorizer, the regular-expression engine, the fuzzy matcher (index and
  matched positions of every hit, best first), \<open>strings.TrimSpace\<close>, and the two query
  sentinels.  Of the engine, \<open>regexp.Compile\<close> gives a compiled pattern or an error,
  \<open>FindIndex\<close> the location of the leftmost match of a pattern in a text, as a pair, or
  nil, and \<open>FindAllIndex\<close> (with no limit) the locations of all its successive matches.
  \<open>filterLogs\<close> calls the first two; the third says what the matched spans of a pattern
  in a text are.
\<close>

record ('rx, 'e) deps =
  color_ANSIColorize :: "string \<Rightarrow> int \<Rightarrow> string"
  regexp_Compile :: "string \<Rightarrow> 'e + 'rx"
  rx_FindIndex :: "'rx \<Rightarrow> string \<Rightarrow> (nat \<times> nat) option"
  rx_FindAllIndex :: "'rx \<Rightarrow> string \<Rightarrow> (nat \<times> nat) list"
  fuzzy_Find :: "string \<Rightarrow> string list \<Rightarrow> (nat \<times> nat list) list"
  strings_TrimSpace :: "string \<Rightarrow> string"
  inverse_sentinel :: char
  fuzzy_sentinel :: string

text \<open>
  Modelled from the spec: \<open>IsInverseSelector\<close> is declared in a file of the package that
  is not at hand.  The query "begins with the inverse-selector sentinel (a single leading
  character)".
\<close>

definition IsInverseSelector :: "char \<Rightarrow> string \<Rightarrow> bool" where
  "IsInverseSelector sentinel q = (case q of [] \<Rightarrow> False | c # _ \<Rightarrow> c = sentinel)"

text \<open>
  Modelled from the spec: \<open>IsFuzzySelector\<close> is declared in a file of the package that
  is not at hand.  The query "begins with the fuzzy-selector sentinel prefix".
\<close>

definition IsFuzzySelector :: "string \<Rightarrow> string \<Rightarrow> bool" where
  "IsFuzzySelector sentinel q = (q \<noteq> [] \<and> take (length sentinel) q = sentinel)"

text \<open>The slice expression \<open>q[n:]\<close> panics (\<open>None\<close>) when \<open>n\<close> exceeds the length.\<close>

definition slice_from :: "nat \<Rightarrow> string \<Rightarrow> string option" where
  "slice_from n q = (if n \<le> length q then Some (drop n q) else None)"

definition Lines :: "('rx, 'e) deps \<Rightarrow> registry \<Rightarrow> LogItem list \<Rightarrow> bool \<Rightarrow> string \<Rightarrow> string list" where
  "Lines D logModifiers l showTime modifier =
     map (\<lambda>item. Render (color_ANSIColorize D) logModifiers item 0 showTime modifier) l"

definition StrLines :: "('rx, 'e) deps \<Rightarrow> registry \<Rightarrow> LogItem list \<Rightarrow> bool \<Rightarrow> string \<Rightarrow> string list" where
  "StrLines D logModifiers l showTime modifier =
     map (\<lambda>item. Render (color_ANSIColorize D) logModifiers item 0 showTime modifier) l"

text \<open>
  The result of a filter is the Go triple of matched indices, highlight positions and
  error (\<open>None\<close> for nil; a nil slice is the empty list); a panic is the outer \<open>None\<close>.
\<close>

type_synonym 'e filtered = "(nat list \<times> nat list list \<times> 'e option) option"

definition fuzzyFilter ::
  "('rx, 'e) deps \<Rightarrow> registry \<Rightarrow> LogItem list \<Rightarrow> string \<Rightarrow> bool \<Rightarrow> string
     \<Rightarrow> nat list \<times> nat list list" where
  "fuzzyFilter D logModifiers l q showTime modifier =
     (let q' = strings_TrimSpace D q;
          mm = fuzzy_Find D q' (StrLines D logModifiers l showTime modifier)
      in (map fst mm, map snd mm))"

text \<open>The innermost loop of \<open>filterLogs\<close>: append every position from \<open>j\<close> up to \<open>hi\<close>.\<close>

function span_loop :: "nat \<Rightarrow> nat \<Rightarrow> nat list \<Rightarrow> nat list" where
  "span_loop j hi ii = (if j < hi then span_loop (Suc j) hi (ii @ [j]) else ii)"
  by pat_completeness auto
termination
  by (relation "measure (\<lambda>(j, hi, ii). hi - j)") auto

declare span_loop.simps [simp del]

text \<open>
  The loop over \<open>locs\<close> in steps of two; reading \<open>locs[i+1]\<close> past the end panics.
\<close>

fun locs_loop :: "nat list \<Rightarrow> nat list \<Rightarrow> nat list option" where
  "locs_loop [] ii = Some ii"
| "locs_loop [a] ii = None"
| "locs_loop (a # b # locs) ii = locs_loop locs (span_loop a b ii)"

text \<open>
  The loop over the rendered lines.  \<open>locs\<close> is the slice \<open>FindIndex\<close> returns: nil
  (\<open>None\<close>) or the two ends of the leftmost match.
\<close>

fun filter_loop ::
  "('rx \<Rightarrow> string \<Rightarrow> (nat \<times> nat) option) \<Rightarrow> 'rx \<Rightarrow> bool \<Rightarrow> nat \<Rightarrow> string list
     \<Rightarrow> nat list \<Rightarrow> nat list list \<Rightarrow> (nat list \<times> nat list list) option" where
  "filter_loop FindIndex rx invert i [] matches indices = Some (matches, indices)"
| "filter_loop FindIndex rx invert i (line # lines) matches indices =
     (let locs = map_option (\<lambda>(s, e). [s, e]) (FindIndex rx line) in
      if locs \<noteq> None \<and> invert then filter_loop FindIndex rx invert (Suc i) lines matches indices
      else if locs = None \<and> \<not> invert then filter_loop FindIndex rx invert (Suc i) lines matches indices
      else
        (case locs_loop (case locs of None \<Rightarrow> [] | Some xs \<Rightarrow> xs) [] of
           None \<Rightarrow> None
         | Some ii \<Rightarrow>
             filter_loop FindIndex rx invert (Suc i) lines (matches @ [i]) (indices @ [ii])))"

definition filterLogs ::
  "('rx, 'e) deps \<Rightarrow> registry \<Rightarrow> LogItem list \<Rightarrow> string \<Rightarrow> bool \<Rightarrow> string \<Rightarrow> 'e filtered" where
  "filterLogs D logModifiers l q showTime modifier =
     (case (if IsInverseSelector (inverse_sentinel D) q
            then map_option (Pair True) (slice_from 1 q)
            else Some (False, q)) of
        None \<Rightarrow> None
      | Some (invert, q1) \<Rightarrow>
          (case regexp_Compile D (''(?i)'' @ q1) of
             Inl err \<Rightarrow> Some ([], [], Some err)
           | Inr rx \<Rightarrow>
               (case filter_loop (rx_FindIndex D) rx invert 0
                       (Lines D logModifiers l showTime modifier) [] [] of
                  None \<Rightarrow> None
                | Some (matches, indices) \<Rightarrow> Some (matches, indices, None))))"

definition Filter ::
  "('rx, 'e) deps \<Rightarrow> registry \<Rightarrow> LogItem list \<Rightarrow> string \<Rightarrow> bool \<Rightarrow> string \<Rightarrow> 'e filtered" where
  "Filter D logModifiers l q showTime modifier =
     (if q = [] then Some ([], [], None)
      else if IsFuzzySelector (fuzzy_sentinel D) q then
        (case slice_from 2 q of
           None \<Rightarrow> None
         | Some q2 \<Rightarrow>
             (case fuzzyFilter D logModifiers l (strings_TrimSpace D q2) showTime modifier of
                (mm, ii) \<Rightarrow> Some (mm, ii, None)))
      else
        (case filterLogs D logModifiers l q showTime modifier of
           None \<Rightarrow> None
         | Some (matches, indices, Some err) \<Rightarrow> Some ([], [], Some err)
         | Some (matches, indices, None) \<Rightarrow> Some (matches, indices, None)))"

text \<open>
  What the specification says of the regex path, in its own words: a line is kept when
  it matches, or under inversion when it does not; the highlight set of a kept line is
  every position of the matched span, and empty when there is no span.
\<close>

definition kept_line :: "('rx \<Rightarrow> string \<Rightarrow> (nat \<times> nat) option) \<Rightarrow> 'rx \<Rightarrow> bool \<Rightarrow> string \<Rightarrow> bool" where
  "kept_line FindIndex rx invert line = ((FindIndex rx line = None) = invert)"

definition highlight :: "(nat \<times> nat) option \<Rightarrow> nat list" where
  "highlight loc = (case loc of None \<Rightarrow> [] | Some (s, e) \<Rightarrow> [s..<e])"

text \<open>
  The positions covered by every matched span of a compiled pattern in a line, and the
  property that a query's result highlights exactly these positions on each kept line.
\<close>

definition every_span_positions :: "('rx, 'e) deps \<Rightarrow> 'rx \<Rightarrow> string \<Rightarrow> nat list" where
  "every_span_positions D rx line = concat (map (\<lambda>(s, e). [s..<e]) (rx_FindAllIndex D rx line))"

definition highlights_every_span ::
  "('rx, 'e) deps \<Rightarrow> registry \<Rightarrow> LogItem list \<Rightarrow> string \<Rightarrow> bool \<Rightarrow> string \<Rightarrow> 'rx \<Rightarrow> bool" where
  "highlights_every_span D logModifiers l q showTime modifier rx =
     (case filterLogs D logModifiers l q showTime modifier of
        Some (matches, indices, None) \<Rightarrow>
          list_all2
            (\<lambda>i ii. set ii
                     = set (every_span_positions D rx
                              (Lines D logModifiers l showTime modifier ! i)))
            matches indices
      | _ \<Rightarrow> False)"

section \<open>Concrete collaborators for the examples\<close>

text \<open>A colorizer in the shape of an ANSI 256-colour escape, with the code left symbolic.\<close>

definition demo_colorize :: "string \<Rightarrow> int \<Rightarrow> string" where
  "demo_colorize text c = (if c = 106 then ''<t>'' else ''<c>'') @ text @ ''</>''"

definition demo_pretty :: "string \<Rightarrow> bool \<Rightarrow> string \<times> string option" where
  "demo_pretty l b = (if l = [] then ([], Some ''empty'') else (''* '' @ l, None))"

definition demo_item :: LogItem where
  "demo_item = \<lparr>Pod = ''p1'', Container = ''c1'', Timestamp = ''T0'',
                 SingleContainer = False, Bytes = ''[warn] x''\<rparr>"

text \<open>
  A small engine for the examples: the pattern after the case flag is searched as a
  literal, and a lone opening parenthesis does not compile.  On the lower-case literals
  of the examples it finds what the Go engine finds: \<open>find_literal\<close> the leftmost
  occurrence, \<open>all_literal\<close> the successive occurrences that do not overlap.
\<close>

fun find_literal :: "string \<Rightarrow> string \<Rightarrow> nat \<Rightarrow> (nat \<times> nat) option" where
  "find_literal pat [] i = (if pat = [] then Some (i, i) else None)"
| "find_literal pat (c # cs) i =
     (if take (length pat) (c # cs) = pat then Some (i, i + length pat)
      else find_literal pat cs (Suc i))"

fun all_literal :: "string \<Rightarrow> nat \<Rightarrow> nat \<Rightarrow> string \<Rightarrow> (nat \<times> nat) list" where
  "all_literal pat skip i [] = []"
| "all_literal pat skip i (c # cs) =
     (if skip = 0 \<and> pat \<noteq> [] \<and> take (length pat) (c # cs) = pat
      then (i, i + length pat) # all_literal pat (length pat - 1) (Suc i) cs
      else all_literal pat (skip - 1) (Suc i) cs)"

definition demo_deps :: "(string, string) deps" where
  "demo_deps =
     \<lparr>color_ANSIColorize = demo_colorize,
      regexp_Compile = (\<lambda>p. if drop 4 p = ''('' then Inl ''missing closing )'' else Inr (drop 4 p)),
      rx_FindIndex = (\<lambda>pat line. find_literal pat line 0),
      rx_FindAllIndex = (\<lambda>pat line. all_literal pat 0 0 line),
      fuzzy_Find = (\<lambda>q ls. []),
      strings_TrimSpace = (\<lambda>q. q),
      inverse_sentinel = CHR ''!'',
      fuzzy_sentinel = ''-f''\<rparr>"

definition demo_items :: "LogItem list" where
  "demo_items =
     [\<lparr>Pod = [], Container = [], Timestamp = ''T0'', SingleContainer = True, Bytes = ''xaay''\<rparr>,
      \<lparr>Pod = [], Container = [], Timestamp = ''T1'', SingleContainer = True, Bytes = ''b''\<rparr>]"

text \<open>A collection of one line in which the literal aa occurs twice.\<close>

definition demo_repeat :: "LogItem list" where
  "demo_repeat =
     [\<lparr>Pod = [], Container = [], Timestamp = ''T0'', SingleContainer = True, Bytes = ''xaayaa''\<rparr>]"

section \<open>Properties\<close>

lemma pad_loop_eq: "pad_loop t i = t @ replicate (30 - i) CHR '' ''"
proof (induction t i rule: pad_loop.induct)
  case (1 t i)
  show ?case
  proof (cases "i < 30")
    case True
    then have "30 - i = Suc (30 - Suc i)" by simp
    with True 1 show ?thesis
      by (subst pad_loop.simps) (simp add: replicate_append_same)
  next
    case False
    then show ?thesis by (subst pad_loop.simps) simp
  qed
qed

text \<open>
  C9: the zap-pretty modifier is total and fails open: when the pretty-printer reports
  an error the input line is returned unchanged, otherwise the pretty-printed text is
  returned; in either case the result is a plain byte sequence, never an error.
\<close>

theorem C9_zap_pretty_fail_open:
  "(\<forall>p e. PrettyLine line True = (p, Some e) \<longrightarrow> ZapPretty_Modify PrettyLine line = line)
   \<and> (\<forall>p. PrettyLine line True = (p, None) \<longrightarrow> ZapPretty_Modify PrettyLine line = p)
   \<and> lookup_modifier (init PrettyLine logModifiers) ''zap-pretty''
        = Some (ZapPretty_Modify PrettyLine)"
  by (simp add: ZapPretty_Modify_def init_def RegisterLogModifier_def lookup_modifier_def)

theorem C9_zap_pretty_fail_open_witness:
  "demo_pretty [] True = ([], Some ''empty'') \<and> ZapPretty_Modify demo_pretty [] = []
   \<and> demo_pretty ''x'' True = (''* x'', None) \<and> ZapPretty_Modify demo_pretty ''x'' = ''* x''"
  using C9_zap_pretty_fail_open [of demo_pretty "[]" Map.empty]
        C9_zap_pretty_fail_open [of demo_pretty "''x''" Map.empty]
  by (simp add: demo_pretty_def)

text \<open>
  C8: with the timestamp switched off, two records that differ only in their Timestamp
  field render to the same bytes, for every colour code, registry and modifier name.
\<close>

theorem C8_render_hides_timestamp:
  "Render ANSIColorize logModifiers (l\<lparr>Timestamp := t1\<rparr>) paint False modifier
   = Render ANSIColorize logModifiers (l\<lparr>Timestamp := t2\<rparr>) paint False modifier"
  by (simp add: Render_def)

lemma assembled_eq:
  "assembled ANSIColorize l paint showTime
     = (if showTime
        then ANSIColorize (Timestamp l @ replicate (30 - length (Timestamp l)) CHR '' '') 106 @ '' ''
        else [])
       @ (if Pod l \<noteq> [] then ANSIColorize (Pod l) paint @ '':'' else [])
       @ (if \<not> SingleContainer l \<and> Container l \<noteq> []
          then ANSIColorize (Container l) paint @ '' '' else [])
       @ ReplaceAll (Bytes l)"
  by (simp add: assembled_def Render_def lookup_modifier_def pad_loop_eq Let_def)

text \<open>
  C6: once a (non-nil) modifier is registered under a name, rendering with that name
  returns the modifier applied to the assembled line; rendering with a name that the
  registry does not hold returns the assembled line itself.
\<close>

theorem C6_registered_modifier_applied:
  "Render ANSIColorize (RegisterLogModifier X (Some Modify) logModifiers) l paint showTime X
     = Modify (assembled ANSIColorize l paint showTime)
   \<and> (logModifiers name = None \<longrightarrow>
        Render ANSIColorize logModifiers l paint showTime name
          = assembled ANSIColorize l paint showTime)"
  by (simp add: Render_def assembled_def RegisterLogModifier_def lookup_modifier_def Let_def)

theorem C6_registered_modifier_applied_witness:
  "Render demo_colorize (RegisterLogModifier ''X'' (Some rev) Map.empty) demo_item 0 False ''X''
     = rev (assembled demo_colorize demo_item 0 False)
   \<and> Map.empty ''Y'' = (None :: LogModifier option)
   \<and> Render demo_colorize Map.empty demo_item 0 False ''Y''
       = assembled demo_colorize demo_item 0 False"
  using C6_registered_modifier_applied
          [of demo_colorize "''X''" rev Map.empty demo_item 0 False "''Y''"]
  by simp


subsection \<open>Parsing\<close>

lemma bytes_Split_no_sep: "sep \<notin> set s \<Longrightarrow> bytes_Split s sep = [s]"
  by (induction s) auto

lemma bytes_Split_not_Nil: "bytes_Split s sep \<noteq> []"
  by (induction s) (auto split: list.splits)

text \<open>
  C3: the raw line "TS msg1 msg2" followed by a newline parses to the timestamp TS and
  the message "msg1 msg2"; a raw line whose content holds no space parses, without
  failure, to that content as timestamp and the empty message.
\<close>

theorem C3_parse_line:
  "NewLogItem (''TS msg1 msg2'' @ [CHR 0x0A])
     = Some \<lparr>Pod = [], Container = [], Timestamp = ''TS'', SingleContainer = False,
             Bytes = ''msg1 msg2''\<rparr>
   \<and> (CHR '' '' \<notin> set content \<longrightarrow>
        NewLogItem (content @ [CHR 0x0A])
          = Some \<lparr>Pod = [], Container = [], Timestamp = content, SingleContainer = False,
                  Bytes = []\<rparr>)"
  by (simp add: NewLogItem_def bytes_Split_no_sep)

theorem C3_parse_line_witness:
  "CHR '' '' \<notin> set ''abc''
   \<and> NewLogItem (''abc'' @ [CHR 0x0A])
       = Some \<lparr>Pod = [], Container = [], Timestamp = ''abc'', SingleContainer = False,
               Bytes = []\<rparr>"
  using C3_parse_line [of "''abc''"] by simp

text \<open>
  C10: parsing fails (the slice is out of range) exactly on the empty input; on any
  other input the last byte is dropped whatever it is, so the result does not depend on
  it, and the rest is split at the spaces.
\<close>

theorem C10_parse_needs_nonempty:
  "(NewLogItem b = None \<longleftrightarrow> b = [])
   \<and> NewLogItem (bs @ [c]) = NewLogItem (bs @ [d])
   \<and> (\<exists>c0 cols1. bytes_Split bs CHR '' '' = c0 # cols1
        \<and> NewLogItem (bs @ [c])
            = Some \<lparr>Pod = [], Container = [], Timestamp = c0, SingleContainer = False,
                    Bytes = bytes_Join cols1 '' ''\<rparr>)
   \<and> NewLogItem ''TS msgX''
       = Some \<lparr>Pod = [], Container = [], Timestamp = ''TS'', SingleContainer = False,
               Bytes = ''msg''\<rparr>"
proof -
  have a: "NewLogItem b = None \<longleftrightarrow> b = []"
    using bytes_Split_not_Nil [of "take (length b - 1) b" "CHR '' ''"]
    by (auto simp: NewLogItem_def Let_def split: list.splits)
  obtain c0 cols1 where sp: "bytes_Split bs CHR '' '' = c0 # cols1"
    using bytes_Split_not_Nil [of bs "CHR '' ''"] by (cases "bytes_Split bs CHR '' ''") auto
  have b: "\<And>x. NewLogItem (bs @ [x])
            = Some \<lparr>Pod = [], Container = [], Timestamp = c0, SingleContainer = False,
                    Bytes = bytes_Join cols1 '' ''\<rparr>"
    using sp by (simp add: NewLogItem_def)
  have e: "NewLogItem ''TS msgX''
       = Some \<lparr>Pod = [], Container = [], Timestamp = ''TS'', SingleContainer = False,
               Bytes = ''msg''\<rparr>"
    by (simp add: NewLogItem_def)
  from a b sp e show ?thesis by simp
qed

subsection \<open>Colour assignment\<close>

lemma wrap64_id: "0 \<le> x \<Longrightarrow> x < 2 ^ 63 \<Longrightarrow> wrap64 x = x"
  by (simp add: wrap64_def)

lemma sum_loop_exact:
  "0 \<le> s \<Longrightarrow> \<forall>r\<in>set n. 0 \<le> r \<Longrightarrow> s + sum_list n < 2 ^ 63 \<Longrightarrow> sum_loop s n = s + sum_list n"
proof (induction n arbitrary: s)
  case Nil
  then show ?case by simp
next
  case (Cons r rs)
  have nn: "0 \<le> sum_list rs" using Cons.prems(2) by (simp add: sum_list_nonneg)
  have r0: "0 \<le> r" using Cons.prems(2) by simp
  have w: "wrap64 (s + r) = s + r"
    using Cons.prems(1,3) nn r0 by (intro wrap64_id) auto
  have "sum_loop (s + r) rs = (s + r) + sum_list rs"
    using Cons.prems r0 by (intro Cons.IH) auto
  with w show ?case by simp
qed

lemma sum_list_bounded:
  "\<forall>r\<in>set n. r \<le> (m::int) \<Longrightarrow> sum_list n \<le> int (length n) * m"
  by (induction n) (auto simp: algebra_simps)

lemma smod_nonneg: "0 \<le> (x::int) \<Longrightarrow> x smod 256 = x mod 256"
  by (cases "x = 0") (simp_all add: signed_modulo_int_def)

lemma colorFor_nonzero:
  assumes "\<forall>r\<in>set n. 0 \<le> r \<and> r \<le> 0x10FFFF"
    and "int (length n) * 0x10FFFF < 2 ^ 63"
    and "sum_list n mod 256 \<noteq> 0"
  shows "colorFor Intn n g = (sum_list n mod 256, g)"
proof -
  have le: "sum_list n \<le> int (length n) * 0x10FFFF"
    using assms(1) by (intro sum_list_bounded) auto
  have nn: "0 \<le> sum_list n" using assms(1) by (simp add: sum_list_nonneg)
  have "sum_loop 0 n = 0 + sum_list n"
    using assms(1,2) le by (intro sum_loop_exact) auto
  then have "sum_loop 0 n smod 256 = sum_list n mod 256"
    using nn by (simp add: smod_nonneg)
  then show ?thesis
    using assms(3) by (simp add: colorFor_def)
qed

text \<open>
  C4: for an identity of valid code points whose sum does not overflow the 64-bit
  integer and is not a multiple of 256, \<open>colorFor\<close> returns that sum modulo 256, a
  value from 0 to 255, whatever the random generator and its state are (which it leaves
  untouched).
\<close>

theorem C4_colorFor_deterministic:
  assumes "\<forall>r\<in>set n. 0 \<le> r \<and> r \<le> 0x10FFFF"
    and "int (length n) * 0x10FFFF < 2 ^ 63"
    and "sum_list n mod 256 \<noteq> 0"
  shows "colorFor Intn n g = (sum_list n mod 256, g)
         \<and> 0 \<le> fst (colorFor Intn n g) \<and> fst (colorFor Intn n g) \<le> 255
         \<and> fst (colorFor Intn' n g') = fst (colorFor Intn n g)"
proof -
  have a: "colorFor Intn n g = (sum_list n mod 256, g)"
    using assms by (rule colorFor_nonzero)
  have b: "colorFor Intn' n g' = (sum_list n mod 256, g')"
    using assms by (rule colorFor_nonzero)
  have "sum_list n mod 256 < 256" by simp
  then show ?thesis using a b by simp
qed

theorem C4_colorFor_deterministic_witness:
  "list_all (\<lambda>r. 0 \<le> r \<and> r \<le> 0x10FFFF) [112, 111, 100 :: int]
   \<and> int (length [112, 111, 100 :: int]) * 0x10FFFF < 2 ^ 63
   \<and> sum_list [112, 111, 100 :: int] mod 256 = 67
   \<and> colorFor (\<lambda>k g. (g mod k, g + 1)) [112, 111, 100] (5::int) = (67, 5)
   \<and> fst (colorFor (\<lambda>k g. (0, g)) [112, 111, 100] (9::int)) = 67"
  using C4_colorFor_deterministic
          [of "[112, 111, 100]" "\<lambda>k g. (g mod k, g + 1)" "5::int" "\<lambda>k g. (0, g)" "9::int"]
  by simp


subsection \<open>Filtering\<close>

lemma span_loop_eq: "span_loop j hi ii = ii @ [j..<hi]"
proof (induction j hi ii rule: span_loop.induct)
  case (1 j hi ii)
  show ?case
  proof (cases "j < hi")
    case True
    with 1 show ?thesis
      by (subst span_loop.simps) (simp add: upt_rec [of j hi])
  next
    case False
    then show ?thesis by (subst span_loop.simps) simp
  qed
qed

lemma locs_loop_spans:
  "locs_loop (concat (map (\<lambda>(s, e). [s, e]) spans)) ii
     = Some (ii @ concat (map (\<lambda>(s, e). [s..<e]) spans))"
  by (induction spans arbitrary: ii) (auto simp: span_loop_eq)

lemma filter_loop_kept:
  assumes "kept_line F rx invert line"
  shows "filter_loop F rx invert i (line # lines) matches indices
           = filter_loop F rx invert (Suc i) lines (matches @ [i])
               (indices @ [highlight (F rx line)])"
proof (cases "F rx line")
  case None
  with assms have "invert" by (simp add: kept_line_def)
  with None show ?thesis by (simp add: highlight_def)
next
  case (Some loc)
  with assms have "\<not> invert" by (simp add: kept_line_def)
  with Some show ?thesis
    by (cases loc) (simp add: highlight_def span_loop_eq)
qed

lemma filter_loop_dropped:
  assumes "\<not> kept_line F rx invert line"
  shows "filter_loop F rx invert i (line # lines) matches indices
           = filter_loop F rx invert (Suc i) lines matches indices"
proof (cases "F rx line")
  case None
  with assms have "\<not> invert" by (simp add: kept_line_def)
  with None show ?thesis by simp
next
  case (Some loc)
  with assms have "invert" by (simp add: kept_line_def)
  with Some show ?thesis by simp
qed

lemma filter_loop_eq:
  "filter_loop F rx invert i lines matches indices
     = Some (matches @ map fst (filter (\<lambda>p. kept_line F rx invert (snd p)) (enumerate i lines)),
             indices @ map (\<lambda>p. highlight (F rx (snd p)))
                          (filter (\<lambda>p. kept_line F rx invert (snd p)) (enumerate i lines)))"
proof (induction lines arbitrary: i matches indices)
  case Nil
  show ?case by simp
next
  case (Cons line lines)
  show ?case
  proof (cases "kept_line F rx invert line")
    case True
    then show ?thesis
      by (simp add: filter_loop_kept Cons.IH del: filter_loop.simps)
  next
    case False
    then show ?thesis
      by (simp add: filter_loop_dropped Cons.IH del: filter_loop.simps)
  qed
qed

text \<open>
  C5: the empty query gives empty matches, empty highlights and no error, for every
  collection and setting; a query whose pattern does not compile gives the compiler's
  error with no results, from \<open>filterLogs\<close> and, when the query is a regex query, from
  \<open>Filter\<close>.
\<close>

theorem C5_empty_query_and_invalid_pattern:
  "Filter D logModifiers l [] showTime modifier = Some ([], [], None)
   \<and> (regexp_Compile D (''(?i)'' @ (if IsInverseSelector (inverse_sentinel D) q then drop 1 q else q))
        = Inl err \<longrightarrow>
        filterLogs D logModifiers l q showTime modifier = Some ([], [], Some err)
        \<and> (q \<noteq> [] \<and> \<not> IsFuzzySelector (fuzzy_sentinel D) q \<longrightarrow>
             Filter D logModifiers l q showTime modifier = Some ([], [], Some err)))"
proof -
  have e: "Filter D logModifiers l [] showTime modifier = Some ([], [], None)"
    by (simp add: Filter_def)
  have f: "filterLogs D logModifiers l q showTime modifier = Some ([], [], Some err)"
    if "regexp_Compile D (''(?i)'' @ (if IsInverseSelector (inverse_sentinel D) q then drop 1 q else q))
          = Inl err"
    using that
    by (cases q) (auto simp: filterLogs_def IsInverseSelector_def slice_from_def)
  have g: "Filter D logModifiers l q showTime modifier = Some ([], [], Some err)"
    if "filterLogs D logModifiers l q showTime modifier = Some ([], [], Some err)"
      and "q \<noteq> []" and "\<not> IsFuzzySelector (fuzzy_sentinel D) q"
    using that by (simp add: Filter_def)
  from e f g show ?thesis by blast
qed

theorem C5_empty_query_and_invalid_pattern_witness:
  "Filter demo_deps Map.empty demo_items [] False [] = Some ([], [], None)
   \<and> regexp_Compile demo_deps (''(?i)'' @ ''('') = Inl ''missing closing )''
   \<and> filterLogs demo_deps Map.empty demo_items ''('' False [] = Some ([], [], Some ''missing closing )'')
   \<and> Filter demo_deps Map.empty demo_items ''('' False [] = Some ([], [], Some ''missing closing )'')"
  using C5_empty_query_and_invalid_pattern
          [of demo_deps Map.empty demo_items False "[]" "''(''" "''missing closing )''"]
  by (simp add: demo_deps_def IsInverseSelector_def IsFuzzySelector_def)


lemma filterLogs_eq:
  assumes "regexp_Compile D
             (''(?i)'' @ (if IsInverseSelector (inverse_sentinel D) q then drop 1 q else q))
           = Inr rx"
  shows "filterLogs D logModifiers l q showTime modifier
         = Some (map fst
                   (filter (\<lambda>p. kept_line (rx_FindIndex D) rx
                                   (IsInverseSelector (inverse_sentinel D) q) (snd p))
                      (enumerate 0 (Lines D logModifiers l showTime modifier))),
                 map (\<lambda>p. highlight (rx_FindIndex D rx (snd p)))
                   (filter (\<lambda>p. kept_line (rx_FindIndex D) rx
                                   (IsInverseSelector (inverse_sentinel D) q) (snd p))
                      (enumerate 0 (Lines D logModifiers l showTime modifier))),
                 None)"
proof (cases "IsInverseSelector (inverse_sentinel D) q")
  case True
  then have "slice_from 1 q = Some (drop 1 q)"
    by (cases q) (simp_all add: IsInverseSelector_def slice_from_def)
  with True assms show ?thesis
    by (simp add: filterLogs_def filter_loop_eq)
next
  case False
  with assms show ?thesis
    by (simp add: filterLogs_def filter_loop_eq)
qed

lemma set_kept_indices:
  "set (map fst (filter (\<lambda>p. Q (snd p)) (enumerate 0 xs))) = {i. i < length xs \<and> Q (xs ! i)}"
  by (auto simp: in_set_enumerate_eq image_iff)

lemma nth_kept:
  assumes "k < length (filter (\<lambda>p. Q (snd p)) (enumerate 0 xs))"
  shows "fst (filter (\<lambda>p. Q (snd p)) (enumerate 0 xs) ! k) < length xs
         \<and> snd (filter (\<lambda>p. Q (snd p)) (enumerate 0 xs) ! k)
             = xs ! fst (filter (\<lambda>p. Q (snd p)) (enumerate 0 xs) ! k)
         \<and> Q (snd (filter (\<lambda>p. Q (snd p)) (enumerate 0 xs) ! k))"
proof -
  let ?K = "filter (\<lambda>p. Q (snd p)) (enumerate 0 xs)"
  from assms have "?K ! k \<in> set ?K" by (rule nth_mem)
  then have "?K ! k \<in> set (enumerate 0 xs)" and "Q (snd (?K ! k))" by auto
  then show ?thesis by (auto simp: in_set_enumerate_eq)
qed

lemma find_literal_first:
  "pat \<noteq> [] \<Longrightarrow>
     find_literal pat s i = (case all_literal pat 0 i s of [] \<Rightarrow> None | loc # _ \<Rightarrow> Some loc)"
  by (induction s arbitrary: i) simp_all

text \<open>
  C1 with "every matched span" does not hold: on a line with two matches of the pattern
  only the positions of the first are returned.  The query aa on the line xaayaa gives
  the highlight positions 1 and 2, while the matched spans cover 1, 2, 4 and 5.
\<close>

theorem C1_every_span_counterexample:
  "filterLogs demo_deps Map.empty demo_repeat ''aa'' False [] = Some ([0], [[1, 2]], None)
   \<and> every_span_positions demo_deps ''aa'' (Lines demo_deps Map.empty demo_repeat False [] ! 0)
       = [1, 2, 4, 5]
   \<and> \<not> highlights_every_span demo_deps Map.empty demo_repeat ''aa'' False [] ''aa''"
proof -
  have line: "Lines demo_deps Map.empty demo_repeat False [] = [''xaayaa'']"
    by (simp add: Lines_def demo_repeat_def Render_def lookup_modifier_def
          escPattern_match_def demo_deps_def)
  have res: "filterLogs demo_deps Map.empty demo_repeat ''aa'' False []
               = Some ([0], [[1, 2]], None)"
    unfolding filterLogs_def line
    by (simp add: demo_deps_def IsInverseSelector_def span_loop_eq)
  have every: "every_span_positions demo_deps ''aa'' ''xaayaa'' = [1, 2, 4, 5]"
    by (simp add: every_span_positions_def demo_deps_def upt_rec)
  have "\<not> highlights_every_span demo_deps Map.empty demo_repeat ''aa'' False [] ''aa''"
    unfolding highlights_every_span_def res line
    by (auto simp: every set_eq_iff)
  with res every line show ?thesis by simp
qed

text \<open>
  C1, amended: whenever the pattern of a regex query compiles, \<open>filterLogs\<close> returns one
  highlight set per matched index.  Without inversion the highlight set of a kept line
  is every position of the span \<open>[start, end)\<close> of the leftmost match of the compiled
  pattern in the rendered line, the one span \<open>FindIndex\<close> reports; under inversion the
  kept lines are those without a match and their highlight sets are empty.
\<close>

theorem C1_highlight_positions:
  assumes "regexp_Compile D
             (''(?i)'' @ (if IsInverseSelector (inverse_sentinel D) q then drop 1 q else q))
           = Inr rx"
  shows "\<exists>matches indices.
           filterLogs D logModifiers l q showTime modifier = Some (matches, indices, None)
           \<and> length indices = length matches
           \<and> (\<forall>k<length matches.
                 matches ! k < length l
                 \<and> (if IsInverseSelector (inverse_sentinel D) q
                    then rx_FindIndex D rx (Lines D logModifiers l showTime modifier ! (matches ! k)) = None
                         \<and> indices ! k = []
                    else (\<exists>s e. rx_FindIndex D rx
                                   (Lines D logModifiers l showTime modifier ! (matches ! k))
                                 = Some (s, e)
                               \<and> indices ! k = [s..<e] \<and> set (indices ! k) = {s..<e})))"
proof -
  let ?inv = "IsInverseSelector (inverse_sentinel D) q"
  let ?F = "rx_FindIndex D"
  let ?lines = "Lines D logModifiers l showTime modifier"
  let ?K = "filter (\<lambda>p. kept_line ?F rx ?inv (snd p)) (enumerate 0 ?lines)"
  let ?m = "map fst ?K"
  let ?ix = "map (\<lambda>p. highlight (?F rx (snd p))) ?K"
  have res: "filterLogs D logModifiers l q showTime modifier = Some (?m, ?ix, None)"
    using assms by (rule filterLogs_eq)
  have len: "length ?lines = length l" by (simp add: Lines_def)
  have each: "?m ! k < length l
       \<and> (if ?inv then ?F rx (?lines ! (?m ! k)) = None \<and> ?ix ! k = []
          else (\<exists>s e. ?F rx (?lines ! (?m ! k)) = Some (s, e)
                  \<and> ?ix ! k = [s..<e] \<and> set (?ix ! k) = {s..<e}))"
    if k: "k < length ?m" for k
  proof -
    from k have kk: "k < length ?K" by simp
    from nth_kept [OF kk]
    have b: "fst (?K ! k) < length ?lines"
      and c: "snd (?K ! k) = ?lines ! fst (?K ! k)"
      and d: "kept_line ?F rx ?inv (snd (?K ! k))"
      by blast+
    have m: "?m ! k = fst (?K ! k)" using kk by simp
    have i: "?ix ! k = highlight (?F rx (snd (?K ! k)))" using kk by simp
    show ?thesis
    proof (cases ?inv)
      case True
      with d have "?F rx (snd (?K ! k)) = None" by (simp add: kept_line_def)
      with True b c m i len show ?thesis by (simp add: highlight_def)
    next
      case False
      with d obtain s e where "?F rx (snd (?K ! k)) = Some (s, e)"
        by (cases "?F rx (snd (?K ! k))") (auto simp: kept_line_def)
      with False b c m i len show ?thesis by (simp add: highlight_def)
    qed
  qed
  have "length ?ix = length ?m" by simp
  with res each show ?thesis by blast
qed

theorem C1_highlight_positions_witness:
  "regexp_Compile demo_deps (''(?i)'' @ ''aa'') = Inr ''aa''
   \<and> filterLogs demo_deps Map.empty demo_items ''aa'' False [] = Some ([0], [[1, 2]], None)
   \<and> rx_FindIndex demo_deps ''aa'' (Lines demo_deps Map.empty demo_items False [] ! 0) = Some (1, 3)"
  using C1_highlight_positions [of demo_deps "''aa''" "''aa''" Map.empty demo_items False "[]"]
  by (simp add: demo_deps_def demo_items_def IsInverseSelector_def filterLogs_def slice_from_def
        Lines_def Render_def lookup_modifier_def escPattern_match_def span_loop_eq)

lemma kept_complement:
  "set (map fst (filter (\<lambda>p. kept_line F rx True (snd p)) (enumerate 0 lines)))
     = {0..<length lines}
       - set (map fst (filter (\<lambda>p. kept_line F rx False (snd p)) (enumerate 0 lines)))"
  "set (map fst (filter (\<lambda>p. kept_line F rx False (snd p)) (enumerate 0 lines)))
     \<inter> set (map fst (filter (\<lambda>p. kept_line F rx True (snd p)) (enumerate 0 lines))) = {}"
  "set (map fst (filter (\<lambda>p. kept_line F rx False (snd p)) (enumerate 0 lines)))
     \<union> set (map fst (filter (\<lambda>p. kept_line F rx True (snd p)) (enumerate 0 lines)))
     = {0..<length lines}"
proof -
  let ?K = "\<lambda>inv. filter (\<lambda>p. kept_line F rx inv (snd p)) (enumerate 0 lines)"
  have flip: "kept_line F rx True line \<longleftrightarrow> \<not> kept_line F rx False line" for line
    by (cases "F rx line") (simp_all add: kept_line_def)
  have sp: "set (map fst (?K False)) = {i. i < length lines \<and> kept_line F rx False (lines ! i)}"
    by (rule set_kept_indices)
  have "?K True = filter (\<lambda>p. \<not> kept_line F rx False (snd p)) (enumerate 0 lines)"
    by (simp add: flip)
  then have si: "set (map fst (?K True))
                   = {i. i < length lines \<and> \<not> kept_line F rx False (lines ! i)}"
    using set_kept_indices [of "\<lambda>line. \<not> kept_line F rx False line" lines] by simp
  show "set (map fst (?K True)) = {0..<length lines} - set (map fst (?K False))"
    and "set (map fst (?K False)) \<inter> set (map fst (?K True)) = {}"
    and "set (map fst (?K False)) \<union> set (map fst (?K True)) = {0..<length lines}"
    unfolding sp si by auto
qed

text \<open>
  C2: for every compiled pattern, the loop of \<open>filterLogs\<close> run with inversion keeps
  exactly the indices that the loop run without inversion does not keep.  For queries:
  when a pattern compiles and does not itself begin with the inverse sentinel, filtering
  with the sentinel put in front of it returns the complement, within the index range of
  the collection, of what filtering with the pattern alone returns; the two index sets
  are disjoint and together make up the whole index range.
\<close>

theorem C2_inverse_is_complement:
  "(\<exists>mp ip mi ii.
      filter_loop (rx_FindIndex D) rx False 0 (Lines D logModifiers l showTime modifier) [] []
        = Some (mp, ip)
      \<and> filter_loop (rx_FindIndex D) rx True 0 (Lines D logModifiers l showTime modifier) [] []
          = Some (mi, ii)
      \<and> set mi = {0..<length l} - set mp
      \<and> set mp \<inter> set mi = {}
      \<and> set mp \<union> set mi = {0..<length l})
   \<and> (\<not> IsInverseSelector (inverse_sentinel D) P \<and> regexp_Compile D (''(?i)'' @ P) = Inr rx \<longrightarrow>
        (\<exists>mp ip mi ii.
           filterLogs D logModifiers l P showTime modifier = Some (mp, ip, None)
           \<and> filterLogs D logModifiers l (inverse_sentinel D # P) showTime modifier
               = Some (mi, ii, None)
           \<and> set mi = {0..<length l} - set mp
           \<and> set mp \<inter> set mi = {}
           \<and> set mp \<union> set mi = {0..<length l}))"
proof -
  let ?F = "rx_FindIndex D"
  let ?lines = "Lines D logModifiers l showTime modifier"
  let ?K = "\<lambda>inv. filter (\<lambda>p. kept_line ?F rx inv (snd p)) (enumerate 0 ?lines)"
  let ?H = "\<lambda>inv. map (\<lambda>p. highlight (?F rx (snd p))) (?K inv)"
  have len: "length ?lines = length l" by (simp add: Lines_def)
  have sets: "set (map fst (?K True)) = {0..<length l} - set (map fst (?K False))"
    "set (map fst (?K False)) \<inter> set (map fst (?K True)) = {}"
    "set (map fst (?K False)) \<union> set (map fst (?K True)) = {0..<length l}"
    using kept_complement [of ?F rx ?lines] unfolding len by blast+
  have loop: "filter_loop ?F rx inv 0 ?lines [] [] = Some (map fst (?K inv), ?H inv)" for inv
    by (simp add: filter_loop_eq)
  have first: "\<exists>mp ip mi ii.
      filter_loop ?F rx False 0 ?lines [] [] = Some (mp, ip)
      \<and> filter_loop ?F rx True 0 ?lines [] [] = Some (mi, ii)
      \<and> set mi = {0..<length l} - set mp
      \<and> set mp \<inter> set mi = {}
      \<and> set mp \<union> set mi = {0..<length l}"
    using loop [of False] loop [of True] sets by blast
  have second: "\<exists>mp ip mi ii.
           filterLogs D logModifiers l P showTime modifier = Some (mp, ip, None)
           \<and> filterLogs D logModifiers l (inverse_sentinel D # P) showTime modifier
               = Some (mi, ii, None)
           \<and> set mi = {0..<length l} - set mp
           \<and> set mp \<inter> set mi = {}
           \<and> set mp \<union> set mi = {0..<length l}"
    if plainq: "\<not> IsInverseSelector (inverse_sentinel D) P"
      and comp: "regexp_Compile D (''(?i)'' @ P) = Inr rx"
  proof -
    have inv: "IsInverseSelector (inverse_sentinel D) (inverse_sentinel D # P)"
      by (simp add: IsInverseSelector_def)
    have plain: "filterLogs D logModifiers l P showTime modifier
                   = Some (map fst (?K False), ?H False, None)"
      using filterLogs_eq [of D P rx logModifiers l showTime modifier] plainq comp by simp
    have inverse: "filterLogs D logModifiers l (inverse_sentinel D # P) showTime modifier
                   = Some (map fst (?K True), ?H True, None)"
      using filterLogs_eq [of D "inverse_sentinel D # P" rx logModifiers l showTime modifier]
        comp inv by simp
    from plain inverse sets show ?thesis by blast
  qed
  from first second show ?thesis by blast
qed

theorem C2_inverse_is_complement_witness:
  "\<not> IsInverseSelector (inverse_sentinel demo_deps) ''aa''
   \<and> regexp_Compile demo_deps (''(?i)'' @ ''aa'') = Inr ''aa''
   \<and> filterLogs demo_deps Map.empty demo_items ''aa'' False [] = Some ([0], [[1, 2]], None)
   \<and> filterLogs demo_deps Map.empty demo_items ''!aa'' False [] = Some ([1], [[]], None)"
  using C2_inverse_is_complement
          [where D = demo_deps and P = "''aa''" and rx = "''aa''" and logModifiers = Map.empty
             and l = demo_items and showTime = False and modifier = "[]"]
  by (simp add: demo_deps_def demo_items_def IsInverseSelector_def filterLogs_def slice_from_def
        Lines_def Render_def lookup_modifier_def escPattern_match_def span_loop_eq)


subsection \<open>Escape substitution\<close>

lemma tag_char_lbr [simp]: "\<not> tag_char lbr" by (simp add: tag_char_def)
lemma tag_char_rbr [simp]: "\<not> tag_char rbr" by (simp add: tag_char_def)

lemma escPattern_match_iff:
  "escPattern_match s = Some (g, r) \<longleftrightarrow> (\<exists>w. esc_token g w \<and> s = w @ r)"
proof
  assume m: "escPattern_match s = Some (g, r)"
  then obtain t where s: "s = lbr # t"
    by (cases s) (auto simp: escPattern_match_def split: if_splits)
  let ?body = "takeWhile tag_char t"
  let ?r1 = "dropWhile tag_char t"
  let ?opens = "takeWhile (\<lambda>x. x = lbr) ?r1"
  let ?r2 = "dropWhile (\<lambda>x. x = lbr) ?r1"
  from m s have b: "?body \<noteq> []" and r2: "?r2 = rbr # r" and g: "g = lbr # ?body @ ?opens"
    by (auto simp: escPattern_match_def Let_def split: if_splits list.splits)
  have "t = ?body @ ?opens @ ?r2" by simp
  with r2 s g have "s = (g @ [rbr]) @ r" by simp
  moreover have "esc_token g (g @ [rbr])"
    unfolding esc_token_def using b g
    by (intro exI [of _ ?body] exI [of _ ?opens]) (auto simp: list_all_iff dest: set_takeWhileD)
  ultimately show "\<exists>w. esc_token g w \<and> s = w @ r" by blast
next
  assume "\<exists>w. esc_token g w \<and> s = w @ r"
  then obtain body opens where b: "body \<noteq> []" "list_all tag_char body"
    "list_all (\<lambda>c. c = lbr) opens" and g: "g = lbr # body @ opens" and s: "s = g @ [rbr] @ r"
    by (auto simp: esc_token_def)
  have nt: "\<not> tag_char (hd (opens @ rbr # r))"
    using b(3) by (cases opens) auto
  have t1: "takeWhile tag_char (body @ opens @ rbr # r) = body"
    using b(2) nt by (cases "opens @ rbr # r") (auto simp: list_all_iff takeWhile_append2 )
  have d1: "dropWhile tag_char (body @ opens @ rbr # r) = opens @ rbr # r"
    using b(2) nt by (cases "opens @ rbr # r") (auto simp: list_all_iff dropWhile_append2)
  have t2: "takeWhile (\<lambda>x. x = lbr) (opens @ rbr # r) = opens"
    using b(3) by (auto simp: list_all_iff takeWhile_append2)
  have d2: "dropWhile (\<lambda>x. x = lbr) (opens @ rbr # r) = rbr # r"
    using b(3) by (auto simp: list_all_iff dropWhile_append2)
  show "escPattern_match s = Some (g, r)"
    using b(1) by (simp add: s g escPattern_match_def t1 d1 t2 d2)
qed


lemma no_token_tl: "\<not> has_esc_token (c # cs) \<Longrightarrow> \<not> has_esc_token cs"
  unfolding has_esc_token_def
  by (metis append_Cons)

lemma ReplaceAll_no_token: "\<not> has_esc_token msg \<Longrightarrow> ReplaceAll msg = msg"
proof (induction msg rule: ReplaceAll.induct)
  case 1
  show ?case by simp
next
  case (2 c cs)
  have none: "escPattern_match (c # cs) = None"
  proof (cases "escPattern_match (c # cs)")
    case None
    then show ?thesis .
  next
    case (Some gr)
    obtain g r where "gr = (g, r)" by (cases gr)
    with Some obtain w where "esc_token g w" "c # cs = [] @ w @ r"
      by (auto simp: escPattern_match_iff)
    then have "has_esc_token (c # cs)" unfolding has_esc_token_def by blast
    with "2.prems" show ?thesis by simp
  qed
  have "\<not> has_esc_token cs" using "2.prems" by (rule no_token_tl)
  with none have "ReplaceAll cs = cs" by (rule "2.IH"(1))
  with none show ?case by simp
qed

lemma no_rbr_no_token: "rbr \<notin> set msg \<Longrightarrow> \<not> has_esc_token msg"
  by (auto simp: has_esc_token_def esc_token_def)

lemma escPattern_match_Cons:
  "escPattern_match (c # t) =
     (if c \<noteq> lbr \<or> takeWhile tag_char t = [] then None
      else case dropWhile (\<lambda>x. x = lbr) (dropWhile tag_char t) of
             [] \<Rightarrow> None
           | d # r3 \<Rightarrow>
               if d = rbr
               then Some (lbr # takeWhile tag_char t
                            @ takeWhile (\<lambda>x. x = lbr) (dropWhile tag_char t), r3)
               else None)"
  by (simp add: escPattern_match_def Let_def)

lemma match_split:
  assumes m: "escPattern_match ((c # t) @ lbr # x # T) = Some (g, r)"
    and x: "x \<noteq> lbr" "x \<noteq> rbr"
  shows "\<exists>r'. r = r' @ lbr # x # T \<and> escPattern_match (c # t) = Some (g, r')"
proof -
  let ?T = "lbr # x # T"
  let ?isl = "\<lambda>z. z = lbr"
  from m have m': "escPattern_match (c # (t @ ?T)) = Some (g, r)" by simp
  show ?thesis
  proof (cases "\<forall>y\<in>set t. tag_char y")
    case True
    then have "takeWhile tag_char (t @ ?T) = t" "dropWhile tag_char (t @ ?T) = ?T"
      by (simp_all add: takeWhile_append2 dropWhile_append2)
    then have "escPattern_match (c # (t @ ?T)) = None"
      using x by (simp add: escPattern_match_Cons)
    with m' show ?thesis by simp
  next
    case False
    then obtain y where y: "y \<in> set t" "\<not> tag_char y" by blast
    let ?d = "dropWhile tag_char t"
    have tk: "takeWhile tag_char (t @ ?T) = takeWhile tag_char t"
      and dr: "dropWhile tag_char (t @ ?T) = ?d @ ?T"
      using y by (simp_all add: takeWhile_append1 dropWhile_append1)
    show ?thesis
    proof (cases "\<forall>z\<in>set ?d. z = lbr")
      case True
      then have "dropWhile ?isl (?d @ ?T) = x # T"
        using x by (simp add: dropWhile_append2)
      then have "escPattern_match (c # (t @ ?T)) = None"
        using x by (simp add: escPattern_match_Cons tk dr)
      with m' show ?thesis by simp
    next
      case False
      then obtain z where z: "z \<in> set ?d" "z \<noteq> lbr" by blast
      have tk2: "takeWhile ?isl (?d @ ?T) = takeWhile ?isl ?d"
        and dr2: "dropWhile ?isl (?d @ ?T) = dropWhile ?isl ?d @ ?T"
        using z by (simp_all add: takeWhile_append1 dropWhile_append1)
      have ne: "dropWhile ?isl ?d \<noteq> []"
        using z by (auto simp: dropWhile_eq_Nil_conv)
      then obtain e r3 where e: "dropWhile ?isl ?d = e # r3" by (cases "dropWhile ?isl ?d") auto
      from m' have c: "c = lbr" and b: "takeWhile tag_char t \<noteq> []" and er: "e = rbr"
        and g: "g = lbr # takeWhile tag_char t @ takeWhile ?isl ?d" and r: "r = r3 @ ?T"
        by (simp_all add: escPattern_match_Cons tk dr tk2 dr2 e split: if_splits)
      have "escPattern_match (c # t) = Some (g, r3)"
        using c b er g by (simp add: escPattern_match_Cons e)
      with r show ?thesis by blast
    qed
  qed
qed

lemma match_extend:
  "escPattern_match s = Some (g, r) \<Longrightarrow> escPattern_match (s @ T) = Some (g, r @ T)"
  by (auto simp: escPattern_match_iff)

lemma ReplaceAll_append_tag:
  assumes x: "x \<noteq> lbr" "x \<noteq> rbr"
  shows "ReplaceAll (pre @ lbr # x # T) = ReplaceAll pre @ ReplaceAll (lbr # x # T)"
proof (induction pre rule: ReplaceAll.induct)
  case 1
  show ?case by simp
next
  case (2 c cs)
  show ?case
  proof (cases "escPattern_match (c # cs)")
    case None
    have "escPattern_match ((c # cs) @ lbr # x # T) = None"
    proof (cases "escPattern_match ((c # cs) @ lbr # x # T)")
      case None
      then show ?thesis .
    next
      case (Some gr)
      obtain g r where "gr = (g, r)" by (cases gr)
      with Some match_split [OF _ x] have "\<exists>r'. escPattern_match (c # cs) = Some (g, r')"
        by blast
      with None show ?thesis by simp
    qed
    then have "ReplaceAll ((c # cs) @ lbr # x # T) = c # ReplaceAll (cs @ lbr # x # T)"
      by simp
    also have "\<dots> = c # ReplaceAll cs @ ReplaceAll (lbr # x # T)"
      using "2.IH"(1) [OF None] by simp
    finally show ?thesis using None by simp
  next
    case (Some gr)
    obtain g r where gr: "gr = (g, r)" by (cases gr)
    with Some have m: "escPattern_match (c # cs) = Some (g, r)" by simp
    then have "escPattern_match ((c # cs) @ lbr # x # T) = Some (g, r @ lbr # x # T)"
      by (rule match_extend)
    then have "ReplaceAll ((c # cs) @ lbr # x # T) = matcher g @ ReplaceAll (r @ lbr # x # T)"
      by simp
    also have "\<dots> = matcher g @ ReplaceAll r @ ReplaceAll (lbr # x # T)"
      using "2.IH"(2) [OF Some gr [symmetric]] by simp
    finally show ?thesis using m by simp
  qed
qed

lemma warn_tag: "ReplaceAll (''[warn]'' @ post) = ''[warn[]'' @ ReplaceAll post"
  by (simp add: escPattern_match_Cons tag_char_def matcher_def)


lemma esc_token_last: "esc_token g w \<Longrightarrow> last w = rbr"
  by (auto simp: esc_token_def)

text \<open>
  C7 with its last clause as stated does not hold: scanned again with the same pattern,
  the rewritten text "[warn[]" does match, at the same offset, so it still holds a token
  of the pattern, and a second pass rewrites it once more, to "[warn[[]".
\<close>

theorem C7_rescan_counterexample:
  "ReplaceAll ''[warn]'' = ''[warn[]''
   \<and> escPattern_match (ReplaceAll ''[warn]'') = Some (''[warn['', [])
   \<and> has_esc_token (ReplaceAll ''[warn]'')
   \<and> ReplaceAll (ReplaceAll ''[warn]'') = ''[warn[[]''
   \<and> ReplaceAll (ReplaceAll ''[warn]'') \<noteq> ReplaceAll ''[warn]''"
proof -
  have once: "ReplaceAll ''[warn]'' = ''[warn[]''"
    by (simp add: escPattern_match_Cons tag_char_def matcher_def)
  have again: "escPattern_match ''[warn[]'' = Some (''[warn['', [])"
    by (simp add: escPattern_match_Cons tag_char_def)
  then obtain w where "esc_token ''[warn['' w" and "''[warn[]'' = [] @ w @ []"
    by (auto simp: escPattern_match_iff)
  then have token: "has_esc_token ''[warn[]''"
    unfolding has_esc_token_def by blast
  have twice: "ReplaceAll ''[warn[]'' = ''[warn[[]''"
    by (simp add: escPattern_match_Cons tag_char_def matcher_def)
  from once again token twice show ?thesis by simp
qed

text \<open>
  C7, amended: the escape substitution leaves a message without a token of the pattern
  unchanged.  The tag "[warn]" is rewritten to "[warn[]", an empty bracket pair taking
  the place of the closing bracket, wherever it stands in a message.  Scanned again with
  the same pattern, the rewritten text matches again at the place of the tag, over the
  longer span "[warn[]" whose first group ends with the inserted opening bracket, and a
  second pass rewrites it to "[warn[[]"; what is no longer matched is the span of the
  original tag, whose six bytes now read "[warn[".
\<close>

theorem C7_escape_substitution:
  "(\<not> has_esc_token msg \<longrightarrow> ReplaceAll msg = msg)
   \<and> ReplaceAll ''[warn]'' = ''[warn[]''
   \<and> ReplaceAll (pre @ ''[warn]'' @ post) = ReplaceAll pre @ ''[warn[]'' @ ReplaceAll post
   \<and> escPattern_match (''[warn]'' @ post) = Some (''[warn'', post)
   \<and> escPattern_match (''[warn[]'' @ post) = Some (''[warn['', post)
   \<and> ReplaceAll (''[warn[]'' @ post) = ''[warn[[]'' @ ReplaceAll post
   \<and> take 6 (''[warn[]'' @ post) = ''[warn[''
   \<and> (\<forall>g. \<not> esc_token g (take 6 (''[warn[]'' @ post)))"
proof -
  have a: "\<not> has_esc_token msg \<longrightarrow> ReplaceAll msg = msg"
    by (simp add: ReplaceAll_no_token)
  have b: "ReplaceAll ''[warn]'' = ''[warn[]''"
    using warn_tag [of "[]"] by simp
  have "ReplaceAll (pre @ lbr # CHR ''w'' # (''arn]'' @ post))
          = ReplaceAll pre @ ReplaceAll (lbr # CHR ''w'' # (''arn]'' @ post))"
    by (rule ReplaceAll_append_tag) simp_all
  then have c: "ReplaceAll (pre @ ''[warn]'' @ post) = ReplaceAll pre @ ''[warn[]'' @ ReplaceAll post"
    using warn_tag [of post] by simp
  have d: "escPattern_match (''[warn]'' @ post) = Some (''[warn'', post)"
    by (simp add: escPattern_match_Cons tag_char_def)
  have e: "escPattern_match (''[warn[]'' @ post) = Some (''[warn['', post)"
    by (simp add: escPattern_match_Cons tag_char_def)
  have e2: "ReplaceAll (''[warn[]'' @ post) = ''[warn[[]'' @ ReplaceAll post"
    by (simp add: escPattern_match_Cons tag_char_def matcher_def)
  have t: "take 6 (''[warn[]'' @ post) = ''[warn[''" by simp
  have f: "\<not> esc_token g (take 6 (''[warn[]'' @ post))" for g
    using esc_token_last [of g "''[warn[''"] by auto
  from a b c d e e2 t f show ?thesis by blast
qed

theorem C7_escape_substitution_witness:
  "\<not> has_esc_token ''level=warn msg'' \<and> ReplaceAll ''level=warn msg'' = ''level=warn msg''"
  using C7_escape_substitution [of "''level=warn msg''" "[]" "[]"]
    no_rbr_no_token [of "''level=warn msg''"]
  by simp

end
